theory Spec2Isabelle
  imports Complex_Main "HOL-Library.AList"
begin

section \<open>Python values, dictionaries and failures\<close>

text \<open>
  Floating-point numbers are idealised as real numbers: every arithmetic operation of the
  source is the exact operation on \<open>real\<close>. The integers the source counts with are
  embedded in \<open>real\<close> as well, so that a dictionary keeps one value type while its entries
  are overwritten in place.

  A dictionary is an association list in insertion order; \<open>d[k]\<close> raises \<open>KeyError\<close> on a
  missing key, \<open>d[k] = v\<close> overwrites in place or appends. A Python set is the list of its
  elements in the (arbitrary) order in which it is iterated.
\<close>

datatype error = KeyError | IndexError | ZeroDivisionError | ValueError

type_synonym 'v dict = "(string \<times> 'v) list"

type_synonym corpus = "string list dict"

definition getitem :: "'v dict \<Rightarrow> string \<Rightarrow> error + 'v" where
  "getitem d k = (case map_of d k of None \<Rightarrow> Inl KeyError | Some v \<Rightarrow> Inr v)"

definition setitem :: "'v dict \<Rightarrow> string \<Rightarrow> 'v \<Rightarrow> 'v dict" where
  "setitem d k v = AList.update k v d"

definition truediv :: "real \<Rightarrow> real \<Rightarrow> error + real" where
  "truediv a b = (if b = 0 then Inl ZeroDivisionError else Inr (a / b))"

fun ebind :: "error + 'a \<Rightarrow> ('a \<Rightarrow> error + 'b) \<Rightarrow> error + 'b" where
  "ebind (Inl e) f = Inl e"
| "ebind (Inr x) f = f x"

text \<open>A \<open>for\<close> loop over a list whose body may raise: the first failure ends the loop.\<close>

fun for_each :: "'a list \<Rightarrow> ('a \<Rightarrow> 's \<Rightarrow> error + 's) \<Rightarrow> 's \<Rightarrow> error + 's" where
  "for_each [] body s = Inr s"
| "for_each (x # xs) body s = ebind (body x s) (for_each xs body)"

text \<open>
  The representation invariant of a dictionary of sets: keys are unique and no set lists an
  element twice.
\<close>

definition wf_corpus :: "corpus \<Rightarrow> bool" where
  "wf_corpus corpus \<longleftrightarrow>
     distinct (map fst corpus) \<and> list_all (\<lambda>(k, links). distinct links) corpus"

text \<open>The loader's guarantee: every link points to a page of the corpus.\<close>

definition links_closed :: "corpus \<Rightarrow> bool" where
  "links_closed corpus \<longleftrightarrow>
     list_all (\<lambda>(k, links). list_all (\<lambda>l. l \<in> set (map fst corpus)) links) corpus"

section \<open>The transition model\<close>

text \<open>
  \<^verbatim>\<open>
  def transition_model(corpus, page, damping_factor):
      output = dict()
      if len(corpus[page]) == 0:
          for key in corpus:
              output[key] = 1/len(corpus)
          return output
      for key in corpus:
          output[key] = (1 - damping_factor)/len(corpus)
      prob = damping_factor/len(corpus[page])
      for pageLink in corpus[page]:
          output[pageLink] += prob
      return output
  \<close>
\<close>

definition transition_model :: "corpus \<Rightarrow> string \<Rightarrow> real \<Rightarrow> error + real dict" where
  "transition_model corpus page damping_factor =
     ebind (getitem corpus page) (\<lambda>links.
       if length links = 0 then
         for_each (map fst corpus) (\<lambda>key output.
           ebind (truediv 1 (real (length corpus))) (\<lambda>v.
             Inr (setitem output key v))) []
       else
         ebind (for_each (map fst corpus) (\<lambda>key output.
           ebind (truediv (1 - damping_factor) (real (length corpus))) (\<lambda>v.
             Inr (setitem output key v))) []) (\<lambda>output.
         ebind (getitem corpus page) (\<lambda>links'.
         ebind (truediv damping_factor (real (length links'))) (\<lambda>prob.
           for_each links' (\<lambda>pageLink output.
             ebind (getitem output pageLink) (\<lambda>v.
               Inr (setitem output pageLink (v + prob)))) output))))"

section \<open>The pseudo-random source\<close>

text \<open>
  The generator of the standard library is a parameter of the model: \<open>rnd i\<close> is the
  \<open>i\<close>-th variate it yields, a number in the half-open unit interval
  (\<open>uniform_source\<close>). The two library functions the sampler calls follow the library:
  \<open>random.choice\<close> raises \<open>IndexError\<close> on an empty sequence and otherwise returns the
  element at an index below its length, here the variate scaled to the length;
  \<open>random.choices\<close> with weights accumulates the weights, raises \<open>ValueError\<close> unless
  their total is positive, and returns the element at the index that \<open>bisect\<close> finds for
  the variate scaled to the total, among the first \<open>n - 1\<close> running sums.
\<close>

type_synonym rng = "nat \<Rightarrow> real"

definition uniform_source :: "rng \<Rightarrow> bool" where
  "uniform_source rnd \<longleftrightarrow> (\<forall>i. 0 \<le> rnd i \<and> rnd i < 1)"

definition choice :: "rng \<Rightarrow> nat \<Rightarrow> 'a list \<Rightarrow> error + 'a" where
  "choice rnd pos seq =
     (if seq = [] then Inl IndexError
      else Inr (seq ! nat \<lfloor>rnd pos * real (length seq)\<rfloor>))"

fun accumulate :: "real \<Rightarrow> real list \<Rightarrow> real list" where
  "accumulate acc [] = []"
| "accumulate acc (w # ws) = (acc + w) # accumulate (acc + w) ws"

function bisect :: "real list \<Rightarrow> real \<Rightarrow> nat \<Rightarrow> nat \<Rightarrow> nat" where
  "bisect a x lo hi =
     (if lo < hi then
        (let mid = (lo + hi) div 2 in
         if x < a ! mid then bisect a x lo mid else bisect a x (mid + 1) hi)
      else lo)"
  by pat_completeness auto
termination
  by (relation "measure (\<lambda>(a, x, lo, hi). hi - lo)") auto

declare bisect.simps [simp del]

definition choices :: "rng \<Rightarrow> nat \<Rightarrow> 'a list \<Rightarrow> real list \<Rightarrow> error + 'a" where
  "choices rnd pos population weights =
     (let n = length population; cum_weights = accumulate 0 weights in
      if length cum_weights \<noteq> n then Inl ValueError
      else if cum_weights = [] then Inl IndexError
      else
        (let total = last cum_weights in
         if total \<le> 0 then Inl ValueError
         else Inr (population ! bisect cum_weights (rnd pos * total) 0 (n - 1))))"

section \<open>The sampling estimator\<close>

text \<open>
  \<^verbatim>\<open>
  def sample_pagerank(corpus, damping_factor, n):
      firstSample = random.choice(list(corpus.keys()))
      nextSample = firstSample
      output = dict()
      for key in corpus:
          output[key] = 0
      for _ in range(1, n):
          output[nextSample] += 1
          dist = transition_model(corpus, nextSample, damping_factor)
          page = []
          weight = []
          for key in dist:
              page.append(key)
              weight.append(dist[key])
          nextSample = (random.choices(population=page, weights=weight))[0]
      for key in output:
          output[key] = output[key]/n
      return output
  \<close>
  The body of the loop over \<open>range(1, n)\<close> is \<open>sample_step\<close>; the list \<open>[1..n - 1]\<close> of
  integers is the range, empty when \<open>n \<le> 1\<close>.
\<close>

text \<open>The state of the walk: the visit counts, the current page, the variates consumed.\<close>

type_synonym walk = "real dict \<times> string \<times> nat"

definition sample_step :: "corpus \<Rightarrow> real \<Rightarrow> rng \<Rightarrow> walk \<Rightarrow> error + walk" where
  "sample_step corpus damping_factor rnd w =
     (case w of (output, nextSample, pos) \<Rightarrow>
        ebind (getitem output nextSample) (\<lambda>c.
        ebind (Inr (setitem output nextSample (c + 1))) (\<lambda>output.
        ebind (transition_model corpus nextSample damping_factor) (\<lambda>dist.
        ebind (for_each (map fst dist) (\<lambda>key pw.
                 ebind (getitem dist key) (\<lambda>v.
                   Inr (fst pw @ [key], snd pw @ [v]))) ([], [])) (\<lambda>pw.
        ebind (choices rnd pos (fst pw) (snd pw)) (\<lambda>chosen.
          Inr (output, chosen, Suc pos)))))))"

definition sample_pagerank :: "corpus \<Rightarrow> real \<Rightarrow> int \<Rightarrow> rng \<Rightarrow> error + real dict" where
  "sample_pagerank corpus damping_factor n rnd =
     ebind (choice rnd 0 (map fst corpus)) (\<lambda>firstSample.
     ebind (for_each (map fst corpus) (\<lambda>key output. Inr (setitem output key 0)) []) (\<lambda>output.
     ebind (for_each [1..n - 1] (\<lambda>_. sample_step corpus damping_factor rnd)
              (output, firstSample, 1)) (\<lambda>w.
       for_each (map fst (fst w)) (\<lambda>key output.
         ebind (getitem output key) (\<lambda>c.
         ebind (truediv c (real_of_int n)) (\<lambda>v.
           Inr (setitem output key v)))) (fst w))))"

section \<open>The iterative solver\<close>

text \<open>
  \<^verbatim>\<open>
  def iterate_pagerank(corpus, damping_factor):
      currentRank = dict()
      N = len(corpus)
      for key in corpus:
          currentRank[key] = 1/N
      run = True
      while run:
          diff = []
          newRank = dict()
          for key in currentRank:
              summation = 0
              for i in corpus:
                  if key in corpus[i]:
                      summation += currentRank[i]/len(corpus[i])
                  elif len(corpus[i]) == 0:
                      summation += currentRank[i]/N
              newRank[key] = ((1-damping_factor)/N) + (damping_factor * summation)
          for key in currentRank:
              diff.append(abs(currentRank[key] - newRank[key]))
          if all(i < 0.0015 for i in diff):
              run = False
          currentRank = newRank
      return currentRank
  \<close>
  The inner loop reads \<open>corpus[i]\<close> up to three times in one round; the dictionary does
  not change in between, so the model looks it up once. The \<open>while\<close> loop has no bound
  on its rounds: it is a partial function, and not returning is the value \<open>None\<close>.
\<close>

definition summation_of :: "corpus \<Rightarrow> nat \<Rightarrow> real dict \<Rightarrow> string \<Rightarrow> error + real" where
  "summation_of corpus N currentRank key =
     for_each (map fst corpus) (\<lambda>i summation.
       ebind (getitem corpus i) (\<lambda>links.
         if key \<in> set links then
           ebind (getitem currentRank i) (\<lambda>r.
           ebind (truediv r (real (length links))) (\<lambda>q. Inr (summation + q)))
         else if length links = 0 then
           ebind (getitem currentRank i) (\<lambda>r.
           ebind (truediv r (real N)) (\<lambda>q. Inr (summation + q)))
         else Inr summation)) 0"

definition new_rank :: "corpus \<Rightarrow> real \<Rightarrow> nat \<Rightarrow> real dict \<Rightarrow> error + real dict" where
  "new_rank corpus damping_factor N currentRank =
     for_each (map fst currentRank) (\<lambda>key newRank.
       ebind (summation_of corpus N currentRank key) (\<lambda>summation.
       ebind (truediv (1 - damping_factor) (real N)) (\<lambda>base.
         Inr (setitem newRank key (base + damping_factor * summation))))) []"

definition differences :: "real dict \<Rightarrow> real dict \<Rightarrow> error + real list" where
  "differences currentRank newRank =
     for_each (map fst currentRank) (\<lambda>key diff.
       ebind (getitem currentRank key) (\<lambda>a.
       ebind (getitem newRank key) (\<lambda>b. Inr (diff @ [\<bar>a - b\<bar>])))) []"

partial_function (option) iterate_loop ::
  "corpus \<Rightarrow> real \<Rightarrow> nat \<Rightarrow> real dict \<Rightarrow> (error + real dict) option" where
  "iterate_loop corpus damping_factor N currentRank =
     (case new_rank corpus damping_factor N currentRank of
        Inl e \<Rightarrow> Some (Inl e)
      | Inr newRank \<Rightarrow>
          (case differences currentRank newRank of
             Inl e \<Rightarrow> Some (Inl e)
           | Inr diff \<Rightarrow>
               if list_all (\<lambda>i. i < 0.0015) diff then Some (Inr newRank)
               else iterate_loop corpus damping_factor N newRank))"

declare iterate_loop.simps [code]

definition initial_rank :: "corpus \<Rightarrow> nat \<Rightarrow> error + real dict" where
  "initial_rank corpus N =
     for_each (map fst corpus) (\<lambda>key currentRank.
       ebind (truediv 1 (real N)) (\<lambda>v. Inr (setitem currentRank key v))) []"

definition iterate_pagerank :: "corpus \<Rightarrow> real \<Rightarrow> (error + real dict) option" where
  "iterate_pagerank corpus damping_factor =
     (let N = length corpus in
      case initial_rank corpus N of
        Inl e \<Rightarrow> Some (Inl e)
      | Inr currentRank \<Rightarrow> iterate_loop corpus damping_factor N currentRank)"

section \<open>The recurrence as the specification writes it\<close>

text \<open>
  The contribution of node \<open>i\<close> to node \<open>p\<close>: the rank of \<open>i\<close> divided by the number of
  its out-links when \<open>p\<close> is one of them, the rank of \<open>i\<close> divided by the number of nodes
  when \<open>i\<close> is a sink, and 0 otherwise. One round maps every node \<open>p\<close> to
  \<open>(1 - d) / N\<close> plus \<open>d\<close> times the sum of the contributions to \<open>p\<close>.
\<close>

definition contribution :: "corpus \<Rightarrow> (string \<Rightarrow> real) \<Rightarrow> string \<Rightarrow> string \<Rightarrow> real" where
  "contribution corpus currentRank i p =
     (case map_of corpus i of
        None \<Rightarrow> 0
      | Some links \<Rightarrow>
          if p \<in> set links then currentRank i / real (length links)
          else if links = [] then currentRank i / real (length corpus)
          else 0)"

definition rank_update :: "corpus \<Rightarrow> real \<Rightarrow> (string \<Rightarrow> real) \<Rightarrow> string \<Rightarrow> real" where
  "rank_update corpus d currentRank p =
     (1 - d) / real (length corpus)
       + d * (\<Sum>i\<leftarrow>map fst corpus. contribution corpus currentRank i p)"

section \<open>Notions used in the statements\<close>

text \<open>The dictionary that maps each key of \<open>ks\<close>, in this order, to \<open>f k\<close>.\<close>

definition dict_of :: "string list \<Rightarrow> (string \<Rightarrow> 'v) \<Rightarrow> 'v dict" where
  "dict_of ks f = map (\<lambda>k. (k, f k)) ks"

text \<open>The keys of the output are the keys of the corpus, and no value is negative.\<close>

definition keys_nonneg :: "corpus \<Rightarrow> real dict \<Rightarrow> bool" where
  "keys_nonneg corpus output \<longleftrightarrow>
     map fst output = map fst corpus \<and> list_all (\<lambda>v. 0 \<le> v) (map snd output)"

text \<open>
  Two representations of one graph: the same pages in the same order, and for each page the
  same set of links, listed in any order.
\<close>

definition same_graph :: "corpus \<Rightarrow> corpus \<Rightarrow> bool" where
  "same_graph g g' \<longleftrightarrow>
     list_all2 (\<lambda>(k, links) (k', links'). k = k' \<and> set links = set links') g g'"

section \<open>The inputs of the examples\<close>

text \<open>
  The corpus that the module itself defines, and the same corpus with one set of links
  listed in the other order; a two-page corpus with a sink; a three-page corpus on which
  the rank oscillates when the damping factor is 1; a generator that always yields one half.
\<close>

definition module_corpus :: corpus where
  "module_corpus =
     [(''1.html'', [''2.html'', ''3.html'']), (''2.html'', [''3.html'']), (''3.html'', [''2.html''])]"

definition reordered_corpus :: corpus where
  "reordered_corpus =
     [(''1.html'', [''3.html'', ''2.html'']), (''2.html'', [''3.html'']), (''3.html'', [''2.html''])]"

definition sink_corpus :: corpus where
  "sink_corpus = [(''A'', [''B'']), (''B'', [])]"

definition periodic_corpus :: corpus where
  "periodic_corpus = [(''A'', [''B'']), (''B'', [''A'']), (''C'', [''A''])]"

definition halves :: rng where
  "halves = (\<lambda>i. 1 / 2)"

section \<open>Iteration over dictionaries\<close>

lemma for_each_pure: "for_each xs (\<lambda>x s. Inr (f x s)) s = Inr (fold f xs s)"
  by (induction xs arbitrary: s) simp_all

lemma for_each_cong_set:
  "(\<And>x s. x \<in> set xs \<Longrightarrow> body x s = body' x s) \<Longrightarrow> for_each xs body s = for_each xs body' s"
proof (induction xs arbitrary: s)
  case Nil
  show ?case by simp
next
  case (Cons x xs)
  have "body x s = body' x s" using Cons.prems by simp
  moreover have "for_each xs body = for_each xs body'"
    using Cons by (intro ext) simp
  ultimately show ?case by simp
qed

lemma setitem_fresh: "k \<notin> fst ` set d \<Longrightarrow> setitem d k v = d @ [(k, v)]"
  unfolding setitem_def by (induction d) auto

lemma fold_setitem_fresh:
  "distinct ks \<Longrightarrow> set ks \<inter> fst ` set acc = {} \<Longrightarrow>
   fold (\<lambda>k out. setitem out k (f k)) ks acc = acc @ dict_of ks f"
proof (induction ks arbitrary: acc)
  case Nil
  show ?case by (simp add: dict_of_def)
next
  case (Cons k ks)
  have fresh: "k \<notin> fst ` set acc" using Cons.prems by auto
  have "set ks \<inter> fst ` set (acc @ [(k, f k)]) = {}" using Cons.prems by auto
  then show ?case using Cons fresh by (simp add: setitem_fresh dict_of_def)
qed

lemma fill_dict: "distinct ks \<Longrightarrow> fold (\<lambda>k out. setitem out k (f k)) ks [] = dict_of ks f"
  using fold_setitem_fresh [of ks "[]" f] by simp

lemma keys_dict_of [simp]: "map fst (dict_of ks f) = ks"
  by (simp add: dict_of_def comp_def)

lemma map_of_dict_of: "map_of (dict_of ks f) k = (if k \<in> set ks then Some (f k) else None)"
  by (induction ks) (simp_all add: dict_of_def)

lemma getitem_dict_of: "k \<in> set ks \<Longrightarrow> getitem (dict_of ks f) k = Inr (f k)"
  by (simp add: getitem_def map_of_dict_of)

lemma setitem_dict_of:
  "k \<in> set ks \<Longrightarrow> distinct ks \<Longrightarrow> setitem (dict_of ks f) k v = dict_of ks (f(k := v))"
  unfolding setitem_def dict_of_def by (induction ks) auto

text \<open>The loop \<open>for k in ks: d[k] = g(d[k])\<close> over keys of the dictionary.\<close>
lemma for_each_modify:
  "distinct ks \<Longrightarrow> set ks \<subseteq> set keys \<Longrightarrow> distinct keys \<Longrightarrow>
   for_each ks (\<lambda>k out. ebind (getitem out k) (\<lambda>v. Inr (setitem out k (g v)))) (dict_of keys f)
     = Inr (dict_of keys (\<lambda>k. if k \<in> set ks then g (f k) else f k))"
proof (induction ks arbitrary: f)
  case Nil
  show ?case by simp
next
  case (Cons k ks)
  have k: "k \<in> set keys" "k \<notin> set ks" "distinct ks" "set ks \<subseteq> set keys"
    using Cons.prems by auto
  let ?f' = "f(k := g (f k))"
  have eq: "(\<lambda>x. if x \<in> set ks then g (?f' x) else ?f' x)
        = (\<lambda>x. if x \<in> set (k # ks) then g (f x) else f x)"
    using k by (auto simp: fun_eq_iff)
  have first: "ebind (getitem (dict_of keys f) k) (\<lambda>v. Inr (setitem (dict_of keys f) k (g v)))
        = Inr (dict_of keys ?f')"
    using k(1) Cons.prems(3) by (simp add: getitem_dict_of setitem_dict_of)
  show ?case
    unfolding for_each.simps first ebind.simps Cons.IH [OF k(3,4) Cons.prems(3), of ?f'] eq ..
qed

lemma count_links:
  assumes "distinct keys" "distinct links" "set links \<subseteq> set keys"
  shows "length (filter (\<lambda>k. k \<in> set links) keys) = length links"
proof -
  have "length (filter (\<lambda>k. k \<in> set links) keys) = card (set (filter (\<lambda>k. k \<in> set links) keys))"
    using assms(1) distinct_card [of "filter (\<lambda>k. k \<in> set links) keys"] by simp
  also have "set (filter (\<lambda>k. k \<in> set links) keys) = set links" using assms(3) by auto
  also have "card (set links) = length links" using assms(2) by (simp add: distinct_card)
  finally show ?thesis .
qed

lemma sum_list_indicator:
  "sum_list (map (\<lambda>k. if P k then (c::real) else 0) ks) = real (length (filter P ks)) * c"
  by (induction ks) (simp_all add: algebra_simps)

lemma wf_corpus_lookup:
  "wf_corpus corpus \<Longrightarrow> map_of corpus page = Some links \<Longrightarrow> distinct links"
  by (auto simp: wf_corpus_def list_all_iff dest!: map_of_SomeD)

lemma links_closed_lookup:
  "links_closed corpus \<Longrightarrow> map_of corpus page = Some links \<Longrightarrow> set links \<subseteq> set (map fst corpus)"
  by (auto simp: links_closed_def list_all_iff dest!: map_of_SomeD)

lemma transition_model_sink:
  assumes "distinct (map fst corpus)" "map_of corpus page = Some []"
  shows "transition_model corpus page d = Inr (dict_of (map fst corpus) (\<lambda>k. 1 / real (length corpus)))"
proof -
  have "corpus \<noteq> []" using assms(2) by auto
  then show ?thesis using assms
    by (simp add: transition_model_def getitem_def truediv_def for_each_pure fill_dict)
qed

lemma transition_model_links:
  assumes "distinct (map fst corpus)" "map_of corpus page = Some links" "links \<noteq> []"
    "distinct links" "set links \<subseteq> set (map fst corpus)"
  shows "transition_model corpus page d = Inr (dict_of (map fst corpus)
     (\<lambda>k. if k \<in> set links then (1 - d) / real (length corpus) + d / real (length links)
          else (1 - d) / real (length corpus)))"
proof -
  have "corpus \<noteq> []" using assms(2) by auto
  then show ?thesis using assms
    by (simp add: transition_model_def getitem_def truediv_def for_each_pure fill_dict
        for_each_modify [unfolded getitem_def])
qed

section \<open>The random source stays inside the population\<close>

lemma bisect_le: "lo \<le> hi \<Longrightarrow> bisect a x lo hi \<le> hi"
proof (induction a x lo hi rule: bisect.induct)
  case (1 a x lo hi)
  show ?case
  proof (cases "lo < hi")
    case False
    then show ?thesis using "1.prems" by (subst bisect.simps) simp
  next
    case True
    let ?mid = "(lo + hi) div 2"
    have mid: "lo \<le> ?mid" "?mid < hi" using True by simp_all
    show ?thesis
    proof (cases "x < a ! ?mid")
      case True
      have "bisect a x lo ?mid \<le> ?mid"
        using "1.IH"(1) [OF \<open>lo < hi\<close> refl True mid(1)] .
      then show ?thesis using \<open>lo < hi\<close> True mid by (subst bisect.simps) (simp add: Let_def)
    next
      case False
      have "bisect a x (?mid + 1) hi \<le> hi"
        using "1.IH"(2) [OF \<open>lo < hi\<close> refl False] mid by simp
      then show ?thesis using \<open>lo < hi\<close> False by (subst bisect.simps) (simp add: Let_def)
    qed
  qed
qed

lemma length_accumulate [simp]: "length (accumulate acc ws) = length ws"
  by (induction ws arbitrary: acc) simp_all

lemma last_accumulate: "ws \<noteq> [] \<Longrightarrow> last (accumulate acc ws) = acc + sum_list ws"
proof (induction ws arbitrary: acc)
  case Nil
  then show ?case by simp
next
  case (Cons w ws)
  show ?case
  proof (cases "ws = []")
    case True
    then show ?thesis by simp
  next
    case False
    then have "accumulate (acc + w) ws \<noteq> []"
      using length_accumulate [of "acc + w" ws] by (metis length_0_conv)
    then show ?thesis using Cons.IH [OF False, of "acc + w"] by (simp add: add.assoc)
  qed
qed

lemma choices_member:
  assumes "length population = length weights" "population \<noteq> []" "0 < sum_list weights"
  shows "\<exists>c \<in> set population. choices rnd pos population weights = Inr c"
proof -
  let ?n = "length population"
  let ?cum = "accumulate 0 weights"
  have w: "weights \<noteq> []" using assms(1,2) by auto
  then have cum: "?cum \<noteq> []" using length_accumulate [of 0 weights] by (metis length_0_conv)
  have total: "last ?cum = sum_list weights" using last_accumulate [OF w, of 0] by simp
  have "bisect ?cum (rnd pos * last ?cum) 0 (?n - 1) \<le> ?n - 1" by (rule bisect_le) simp
  then have "bisect ?cum (rnd pos * last ?cum) 0 (?n - 1) < ?n" using assms(2) by (cases population) simp_all
  then have "population ! bisect ?cum (rnd pos * last ?cum) 0 (?n - 1) \<in> set population"
    by (rule nth_mem)
  then show ?thesis using assms cum total by (simp add: choices_def Let_def)
qed

lemma choice_member:
  assumes "uniform_source rnd" "seq \<noteq> []"
  shows "\<exists>c \<in> set seq. choice rnd pos seq = Inr c"
proof -
  have u: "0 \<le> rnd pos" "rnd pos < 1" using assms(1) by (simp_all add: uniform_source_def)
  have len: "0 < real (length seq)" using assms(2) by simp
  have "rnd pos * real (length seq) < real (length seq)" using u len by simp
  then have "\<lfloor>rnd pos * real (length seq)\<rfloor> < int (length seq)" by (simp add: floor_less_iff)
  moreover have "0 \<le> \<lfloor>rnd pos * real (length seq)\<rfloor>" using u len by simp
  ultimately have "nat \<lfloor>rnd pos * real (length seq)\<rfloor> < length seq" by linarith
  then have "seq ! nat \<lfloor>rnd pos * real (length seq)\<rfloor> \<in> set seq" by (rule nth_mem)
  then show ?thesis using assms(2) by (simp add: choice_def)
qed

lemma unzip_dict:
  "set xs \<subseteq> set ks \<Longrightarrow>
   for_each xs (\<lambda>key pw. ebind (getitem (dict_of ks f) key) (\<lambda>v. Inr (fst pw @ [key], snd pw @ [v]))) (p, w)
     = Inr (p @ xs, w @ map f xs)"
  by (induction xs arbitrary: p w) (simp_all add: getitem_dict_of)

lemma sum_list_fun_upd:
  "distinct ks \<Longrightarrow> k \<in> set ks \<Longrightarrow> sum_list (map (c(k := c k + (1::real))) ks) = sum_list (map c ks) + 1"
proof (induction ks)
  case Nil
  then show ?case by simp
next
  case (Cons a ks)
  show ?case
  proof (cases "a = k")
    case True
    then have "k \<notin> set ks" using Cons.prems by simp
    then have "map (c(k := c k + 1)) ks = map c ks" by (intro map_cong) auto
    then have "sum_list (map (c(k := c k + 1)) ks) = sum_list (map c ks)" by (rule arg_cong)
    then show ?thesis using True by (simp del: fun_upd_apply) simp
  next
    case False
    then show ?thesis using Cons by simp
  qed
qed

section \<open>The sampler never fails on a well-formed corpus\<close>

lemma lookup_key: "k \<in> set (map fst corpus) \<Longrightarrow> \<exists>links. map_of corpus k = Some links"
  by (metis image_set map_of_eq_None_iff not_Some_eq)

lemma sum_list_links:
  assumes "distinct keys" "distinct links" "set links \<subseteq> set keys"
  shows "sum_list (map (\<lambda>k. if k \<in> set links then a + b else a) keys)
           = real (length keys) * a + real (length links) * (b::real)"
proof -
  have "(\<lambda>k. if k \<in> set links then a + b else a) = (\<lambda>k. a + (if k \<in> set links then b else 0))"
    by (simp add: fun_eq_iff)
  then have "sum_list (map (\<lambda>k. if k \<in> set links then a + b else a) keys)
       = sum_list (map (\<lambda>k. a) keys) + sum_list (map (\<lambda>k. if k \<in> set links then b else 0) keys)"
    by (simp add: sum_list_addf)
  then show ?thesis
    by (simp add: sum_list_triv sum_list_indicator count_links [OF assms])
qed

text \<open>The transition model of a page of a well-formed closed corpus.\<close>
lemma transition_model_total:
  assumes "wf_corpus corpus" "links_closed corpus" "page \<in> set (map fst corpus)"
  shows "\<exists>f. transition_model corpus page d = Inr (dict_of (map fst corpus) f)
            \<and> sum_list (map f (map fst corpus)) = 1
            \<and> (0 \<le> d \<and> d \<le> 1 \<longrightarrow> (\<forall>k. 0 \<le> f k))"
proof -
  let ?keys = "map fst corpus"
  let ?N = "real (length corpus)"
  obtain links where links: "map_of corpus page = Some links"
    using lookup_key [OF assms(3)] by blast
  have dk: "distinct ?keys" using assms(1) by (simp add: wf_corpus_def)
  have dl: "distinct links" using wf_corpus_lookup [OF assms(1) links] .
  have sub: "set links \<subseteq> set ?keys" using links_closed_lookup [OF assms(2) links] .
  have N: "0 < ?N" using assms(3) by (cases corpus) simp_all
  show ?thesis
  proof (cases "links = []")
    case True
    have "sum_list (map (\<lambda>k. 1 / ?N) ?keys) = 1"
      using N by (simp add: sum_list_triv comp_def)
    then show ?thesis
      using transition_model_sink [OF dk links [unfolded True], of d]
      by (intro exI [of _ "\<lambda>k. 1 / ?N"]) simp
  next
    case False
    let ?L = "real (length links)"
    let ?f = "\<lambda>k. if k \<in> set links then (1 - d) / ?N + d / ?L else (1 - d) / ?N"
    have L: "0 < ?L" using False by simp
have "sum_list (map ?f ?keys) = real (length ?keys) * ((1 - d) / ?N) + ?L * (d / ?L)"
      by (rule sum_list_links [OF dk dl sub])
    then have s: "sum_list (map ?f ?keys) = 1" using N L by simp
    have nn: "0 \<le> d \<and> d \<le> 1 \<longrightarrow> (\<forall>k. 0 \<le> ?f k)" using N L by simp
    show ?thesis
      using transition_model_links [OF dk links False dl sub, of d] s nn
      by (intro exI [of _ ?f]) simp
  qed
qed

lemma sample_step_total:
  assumes "wf_corpus corpus" "links_closed corpus" "page \<in> set (map fst corpus)"
  shows "\<exists>page' \<in> set (map fst corpus).
           sample_step corpus d rnd (dict_of (map fst corpus) c, page, pos)
             = Inr (dict_of (map fst corpus) (c(page := c page + 1)), page', Suc pos)"
proof -
  let ?keys = "map fst corpus"
  have dk: "distinct ?keys" using assms(1) by (simp add: wf_corpus_def)
  obtain f where tm: "transition_model corpus page d = Inr (dict_of ?keys f)"
    and s: "sum_list (map f ?keys) = 1"
    using transition_model_total [OF assms, of d] by blast
  have ne: "?keys \<noteq> []" using assms(3) by auto
  obtain page' where p': "page' \<in> set ?keys" "choices rnd pos ?keys (map f ?keys) = Inr page'"
    using choices_member [of ?keys "map f ?keys" rnd pos] ne s by auto
  have "sample_step corpus d rnd (dict_of ?keys c, page, pos)
      = Inr (dict_of ?keys (c(page := c page + 1)), page', Suc pos)"
    using assms(3) dk tm p'(2) unzip_dict [of ?keys ?keys f "[]" "[]"]
    by (simp add: sample_step_def getitem_dict_of setitem_dict_of)
  then show ?thesis using p'(1) by blast
qed

lemma walk_total:
  assumes "wf_corpus corpus" "links_closed corpus"
  shows "page \<in> set (map fst corpus) \<Longrightarrow>
    \<exists>c' page'. for_each xs (\<lambda>_. sample_step corpus d rnd) (dict_of (map fst corpus) c, page, pos)
        = Inr (dict_of (map fst corpus) c', page', pos + length xs)
      \<and> sum_list (map c' (map fst corpus)) = sum_list (map c (map fst corpus)) + real (length xs)
      \<and> (\<forall>k. c k \<le> c' k)"
proof (induction xs arbitrary: c page pos)
  case Nil
  show ?case by (intro exI [of _ c] exI [of _ page]) simp
next
  case (Cons x xs)
  let ?keys = "map fst corpus"
  have dk: "distinct ?keys" using assms(1) by (simp add: wf_corpus_def)
  obtain p1 where p1: "p1 \<in> set ?keys"
    "sample_step corpus d rnd (dict_of ?keys c, page, pos)
       = Inr (dict_of ?keys (c(page := c page + 1)), p1, Suc pos)"
    using sample_step_total [OF assms Cons.prems, of d rnd c pos] by blast
  obtain c' page' where rest:
    "for_each xs (\<lambda>_. sample_step corpus d rnd) (dict_of ?keys (c(page := c page + 1)), p1, Suc pos)
        = Inr (dict_of ?keys c', page', Suc pos + length xs)"
    "sum_list (map c' ?keys) = sum_list (map (c(page := c page + 1)) ?keys) + real (length xs)"
    "\<forall>k. (c(page := c page + 1)) k \<le> c' k"
    using Cons.IH [OF p1(1), of "c(page := c page + 1)" "Suc pos"] by blast
  have a: "for_each (x # xs) (\<lambda>_. sample_step corpus d rnd) (dict_of ?keys c, page, pos)
        = Inr (dict_of ?keys c', page', pos + length (x # xs))"
    using p1(2) rest(1) by simp
  have b: "sum_list (map c' ?keys) = sum_list (map c ?keys) + real (length (x # xs))"
    using rest(2) sum_list_fun_upd [OF dk Cons.prems, of c] by simp
  have c: "\<forall>k. c k \<le> c' k"
  proof
    fix k
    have "c k \<le> (c(page := c page + 1)) k" by simp
    also have "\<dots> \<le> c' k" using rest(3) by blast
    finally show "c k \<le> c' k" .
  qed
  show ?case using a b c by blast
qed

lemma dict_of_cong: "(\<And>k. k \<in> set ks \<Longrightarrow> f k = g k) \<Longrightarrow> dict_of ks f = dict_of ks g"
  by (simp add: dict_of_def)

lemma normalise_counts:
  assumes "distinct keys" "n \<noteq> 0"
  shows "for_each (map fst (dict_of keys c)) (\<lambda>key output.
           ebind (getitem output key) (\<lambda>c.
           ebind (truediv c (real_of_int n)) (\<lambda>v.
             Inr (setitem output key v)))) (dict_of keys c)
         = Inr (dict_of keys (\<lambda>k. c k / real_of_int n))"
proof -
  have "dict_of keys (\<lambda>k. if k \<in> set keys then c k / real_of_int n else c k)
      = dict_of keys (\<lambda>k. c k / real_of_int n)"
    by (rule dict_of_cong) simp
  then show ?thesis
    using assms for_each_modify [of keys keys "\<lambda>v. v / real_of_int n" c]
    by (simp add: truediv_def)
qed

lemma sample_pagerank_total:
  assumes "wf_corpus corpus" "links_closed corpus" "corpus \<noteq> []" "uniform_source rnd" "n \<noteq> 0"
  shows "\<exists>c. sample_pagerank corpus d n rnd = Inr (dict_of (map fst corpus) (\<lambda>k. c k / real_of_int n))
           \<and> sum_list (map c (map fst corpus)) = real (nat (n - 1))
           \<and> (\<forall>k. 0 \<le> c k)"
proof -
  let ?keys = "map fst corpus"
  have dk: "distinct ?keys" using assms(1) by (simp add: wf_corpus_def)
  have ne: "?keys \<noteq> []" using assms(3) by simp
  obtain first where first: "first \<in> set ?keys" "choice rnd 0 ?keys = Inr first"
    using choice_member [OF assms(4) ne, of 0] by blast
  have init: "for_each ?keys (\<lambda>key output. Inr (setitem output key (0::real))) []
       = Inr (dict_of ?keys (\<lambda>k. 0))"
    using dk by (simp add: for_each_pure fill_dict)
  obtain c page' where walk:
    "for_each [1..n - 1] (\<lambda>_. sample_step corpus d rnd) (dict_of ?keys (\<lambda>k. 0), first, 1)
        = Inr (dict_of ?keys c, page', 1 + length [1..n - 1])"
    "sum_list (map c ?keys) = sum_list (map (\<lambda>k. 0::real) ?keys) + real (length [1..n - 1])"
    "\<forall>k. 0 \<le> c k"
    using walk_total [OF assms(1,2) first(1), of "[1..n - 1]" d rnd "\<lambda>k. 0" 1] by blast
  have "sample_pagerank corpus d n rnd = Inr (dict_of ?keys (\<lambda>k. c k / real_of_int n))"
    using first(2) init walk(1) normalise_counts [OF dk assms(5), of c]
    by (simp add: sample_pagerank_def)
  moreover have "sum_list (map c ?keys) = real (nat (n - 1))" using walk(2) by (simp add: comp_def)
  ultimately show ?thesis using walk(3) by blast
qed

lemma sum_list_divide: "sum_list (map (\<lambda>k. c k / (n::real)) ks) = sum_list (map c ks) / n"
  by (induction ks) (simp_all add: add_divide_distrib)

lemma sample_pagerank_no_walk:
  assumes "wf_corpus corpus" "corpus \<noteq> []" "uniform_source rnd" "n \<le> 1" "n \<noteq> 0"
  shows "sample_pagerank corpus d n rnd = Inr (dict_of (map fst corpus) (\<lambda>k. 0))"
proof -
  let ?keys = "map fst corpus"
  have dk: "distinct ?keys" using assms(1) by (simp add: wf_corpus_def)
  have ne: "?keys \<noteq> []" using assms(2) by simp
  obtain first where first: "choice rnd 0 ?keys = Inr first"
    using choice_member [OF assms(3) ne, of 0] by blast
  have init: "for_each ?keys (\<lambda>key output. Inr (setitem output key (0::real))) []
       = Inr (dict_of ?keys (\<lambda>k. 0))"
    using dk by (simp add: for_each_pure fill_dict)
  have walk: "[1..n - 1] = []" using assms(4) by simp
  show ?thesis
    using first init walk normalise_counts [OF dk assms(5), of "\<lambda>k. 0"]
    by (simp add: sample_pagerank_def)
qed

lemma sample_pagerank_zero:
  assumes "wf_corpus corpus" "corpus \<noteq> []"
  shows "sample_pagerank corpus d 0 rnd = Inl ZeroDivisionError"
proof -
  let ?keys = "map fst corpus"
  have dk: "distinct ?keys" using assms(1) by (simp add: wf_corpus_def)
  obtain k ks where keys: "?keys = k # ks" using assms(2) by (cases corpus) auto
  have first: "\<exists>first. choice rnd 0 ?keys = Inr first" using assms(2) by (simp add: choice_def)
  have init: "for_each ?keys (\<lambda>key output. Inr (setitem output key (0::real))) []
       = Inr (dict_of ?keys (\<lambda>k. 0))"
    using dk by (simp add: for_each_pure fill_dict)
  have "for_each (k # ks) (\<lambda>key output.
         ebind (getitem output key) (\<lambda>c.
         ebind (truediv c (real_of_int 0)) (\<lambda>v.
           Inr (setitem output key v)))) (dict_of (k # ks) (\<lambda>k. 0)) = Inl ZeroDivisionError"
    by (simp add: getitem_dict_of truediv_def)
  then show ?thesis using first init keys by (auto simp: sample_pagerank_def)
qed

lemma iterate_pagerank_empty: "iterate_pagerank [] d = Some (Inr [])"
proof -
  have "iterate_loop [] d 0 [] = Some (Inr [])"
    by (subst iterate_loop.simps) (simp add: new_rank_def differences_def)
  then show ?thesis by (simp add: iterate_pagerank_def initial_rank_def)
qed

section \<open>One round of the solver\<close>

lemma fold_add_sum_list: "fold (\<lambda>i s. s + c i) ks (a::real) = a + sum_list (map c ks)"
  by (induction ks arbitrary: a) simp_all

lemma summation_of_eq:
  "summation_of corpus (length corpus) (dict_of (map fst corpus) r) key
     = Inr (\<Sum>i\<leftarrow>map fst corpus. contribution corpus r i key)"
proof -
  let ?keys = "map fst corpus"
  let ?body = "\<lambda>i summation.
       ebind (getitem corpus i) (\<lambda>links.
         if key \<in> set links then
           ebind (getitem (dict_of ?keys r) i) (\<lambda>r.
           ebind (truediv r (real (length links))) (\<lambda>q. Inr (summation + q)))
         else if length links = 0 then
           ebind (getitem (dict_of ?keys r) i) (\<lambda>r.
           ebind (truediv r (real (length corpus))) (\<lambda>q. Inr (summation + q)))
         else Inr summation)"
  have body: "?body i s = Inr (s + contribution corpus r i key)" if i: "i \<in> set ?keys" for i s
  proof -
    obtain links where links: "map_of corpus i = Some links"
      using lookup_key [OF i] by blast
    have N: "length corpus \<noteq> 0" using i by auto
    show ?thesis
    proof (cases "key \<in> set links")
      case True
      then have "length links \<noteq> 0" by auto
      then show ?thesis using True links i
        by (simp add: getitem_def [of corpus] getitem_dict_of truediv_def contribution_def)
    next
      case False
      then show ?thesis using links i N
        by (simp add: getitem_def [of corpus] getitem_dict_of truediv_def contribution_def)
    qed
  qed
  have "for_each ?keys ?body 0 = for_each ?keys (\<lambda>i s. Inr (s + contribution corpus r i key)) 0"
    by (rule for_each_cong_set) (rule body)
  then show ?thesis
    unfolding summation_of_def by (simp add: for_each_pure fold_add_sum_list)
qed

lemma new_rank_eq:
  assumes "distinct (map fst corpus)"
  shows "new_rank corpus d (length corpus) (dict_of (map fst corpus) r)
     = Inr (dict_of (map fst corpus) (rank_update corpus d r))"
proof -
  let ?keys = "map fst corpus"
  let ?body = "\<lambda>key newRank.
       ebind (summation_of corpus (length corpus) (dict_of ?keys r) key) (\<lambda>summation.
       ebind (truediv (1 - d) (real (length corpus))) (\<lambda>base.
         Inr (setitem newRank key (base + d * summation))))"
  have body: "?body key s = Inr (setitem s key (rank_update corpus d r key))"
    if "key \<in> set ?keys" for key s
  proof -
    have "length corpus \<noteq> 0" using that by auto
    then show ?thesis by (simp add: summation_of_eq truediv_def rank_update_def)
  qed
  have "for_each ?keys ?body [] = for_each ?keys (\<lambda>key s. Inr (setitem s key (rank_update corpus d r key))) []"
    by (rule for_each_cong_set) (rule body)
  then show ?thesis
    unfolding new_rank_def using assms by (simp add: for_each_pure fill_dict)
qed

lemma differences_aux:
  "set xs \<subseteq> set ks \<Longrightarrow>
   for_each xs (\<lambda>key diff.
       ebind (getitem (dict_of ks r) key) (\<lambda>a.
       ebind (getitem (dict_of ks r') key) (\<lambda>b. Inr (diff @ [\<bar>a - b\<bar>])))) acc
     = Inr (acc @ map (\<lambda>k. \<bar>r k - r' k\<bar>) xs)"
  by (induction xs arbitrary: acc) (simp_all add: getitem_dict_of)

lemma differences_eq:
  "differences (dict_of ks r) (dict_of ks r') = Inr (map (\<lambda>k. \<bar>r k - r' k\<bar>) ks)"
  unfolding differences_def using differences_aux [of ks ks r r' "[]"] by simp

lemma initial_rank_eq:
  assumes "distinct (map fst corpus)"
  shows "initial_rank corpus (length corpus)
     = Inr (dict_of (map fst corpus) (\<lambda>k. 1 / real (length corpus)))"
proof -
  let ?keys = "map fst corpus"
  let ?body = "\<lambda>key currentRank.
       ebind (truediv 1 (real (length corpus))) (\<lambda>v. Inr (setitem currentRank key v))"
  have body: "?body key s = Inr (setitem s key (1 / real (length corpus)))"
    if "key \<in> set ?keys" for key s
  proof -
    have "length corpus \<noteq> 0" using that by auto
    then show ?thesis by (simp add: truediv_def)
  qed
  have "for_each ?keys ?body [] = for_each ?keys (\<lambda>key s. Inr (setitem s key (1 / real (length corpus)))) []"
    by (rule for_each_cong_set) (rule body)
  then show ?thesis
    unfolding initial_rank_def using assms by (simp add: for_each_pure fill_dict)
qed

lemma iterate_loop_pass:
  assumes "distinct (map fst corpus)"
  shows "iterate_loop corpus d (length corpus) (dict_of (map fst corpus) r) =
     (if \<forall>k \<in> set (map fst corpus). \<bar>r k - rank_update corpus d r k\<bar> < 0.0015
      then Some (Inr (dict_of (map fst corpus) (rank_update corpus d r)))
      else iterate_loop corpus d (length corpus) (dict_of (map fst corpus) (rank_update corpus d r)))"
  by (subst iterate_loop.simps)
    (simp add: new_rank_eq [OF assms] differences_eq list_all_iff)

lemma iterate_pagerank_start:
  assumes "distinct (map fst corpus)"
  shows "iterate_pagerank corpus d
     = iterate_loop corpus d (length corpus)
         (dict_of (map fst corpus) (\<lambda>k. 1 / real (length corpus)))"
  using initial_rank_eq [OF assms] by (simp add: iterate_pagerank_def Let_def)

section \<open>A round keeps the ranks non-negative\<close>

lemma contribution_nonneg: "0 \<le> r i \<Longrightarrow> 0 \<le> contribution corpus r i p"
  by (simp add: contribution_def split: option.splits)

lemma rank_update_nonneg:
  assumes "0 \<le> d" "d \<le> 1" "\<And>i. 0 \<le> r i"
  shows "0 \<le> rank_update corpus d r p"
proof -
  have "0 \<le> (\<Sum>i\<leftarrow>map fst corpus. contribution corpus r i p)"
    by (rule sum_list_nonneg) (auto intro: contribution_nonneg assms(3))
  then show ?thesis unfolding rank_update_def using assms(1,2) by simp
qed

lemma funpow_rank_update_nonneg:
  assumes "0 \<le> d" "d \<le> 1" "\<And>i. 0 \<le> r i"
  shows "0 \<le> (rank_update corpus d ^^ j) r p"
proof (induction j arbitrary: p)
  case 0
  show ?case using assms(3) by simp
next
  case (Suc j)
  show ?case using rank_update_nonneg [OF assms(1,2), of "(rank_update corpus d ^^ j) r"] Suc by simp
qed

section \<open>The rounds of the solver and its result\<close>

lemma loop_result:
  assumes "iterate_loop corpus d N cur = Some res"
  shows "N = length corpus \<longrightarrow> distinct (map fst corpus) \<longrightarrow>
     (\<forall>r. cur = dict_of (map fst corpus) r \<longrightarrow>
        (\<exists>j. res = Inr (dict_of (map fst corpus) ((rank_update corpus d ^^ Suc j) r))))"
proof -
  define P where "P = (\<lambda>corpus d N cur (res :: error + real dict).
     N = length corpus \<longrightarrow> distinct (map fst corpus) \<longrightarrow>
     (\<forall>r. cur = dict_of (map fst corpus) r \<longrightarrow>
        (\<exists>j. res = Inr (dict_of (map fst corpus) ((rank_update corpus d ^^ Suc j) r)))))"
  have "P corpus d N cur res"
  proof (rule iterate_loop.raw_induct [where P = P, OF _ assms])
  fix f corpus d N cur res
  assume IH: "\<And>a b c e y. f a b c e = Some y \<Longrightarrow> P a b c e y"
  assume pass: "(case new_rank corpus d N cur of
        Inl e \<Rightarrow> Some (Inl e)
      | Inr newRank \<Rightarrow>
          (case differences cur newRank of
             Inl e \<Rightarrow> Some (Inl e)
           | Inr diff \<Rightarrow>
               if list_all (\<lambda>i. i < 0.0015) diff then Some (Inr newRank)
               else f corpus d N newRank)) = Some res"
  show "P corpus d N cur res" unfolding P_def
  proof (intro impI allI)
    fix r
    assume N: "N = length corpus" and dk: "distinct (map fst corpus)"
      and cur: "cur = dict_of (map fst corpus) r"
    let ?ks = "map fst corpus"
    let ?step = "rank_update corpus d"
    have body: "(if \<forall>k \<in> set ?ks. \<bar>r k - ?step r k\<bar> < 0.0015
                 then Some (Inr (dict_of ?ks (?step r)))
                 else f corpus d N (dict_of ?ks (?step r))) = Some res"
      using pass unfolding N cur
      by (simp add: new_rank_eq [OF dk] differences_eq list_all_iff)
    show "\<exists>j. res = Inr (dict_of ?ks ((?step ^^ Suc j) r))"
    proof (cases "\<forall>k \<in> set ?ks. \<bar>r k - ?step r k\<bar> < 0.0015")
      case True
      then have "res = Inr (dict_of ?ks ((?step ^^ Suc 0) r))" using body by simp
      then show ?thesis ..
    next
      case False
      have "f corpus d N (dict_of ?ks (?step r)) = Some res"
        using body unfolding if_not_P [OF False] .
      then have "P corpus d N (dict_of ?ks (?step r)) res" by (rule IH)
      then obtain j where "res = Inr (dict_of ?ks ((?step ^^ Suc j) (?step r)))"
        unfolding P_def using N dk by blast
      then have "res = Inr (dict_of ?ks ((?step ^^ Suc (Suc j)) r))"
        by (simp only: funpow_Suc_right comp_def)
      then show ?thesis ..
    qed
  qed
  qed
  then show ?thesis unfolding P_def .
qed

lemma iterate_pagerank_result:
  assumes "distinct (map fst corpus)" "iterate_pagerank corpus d = Some res"
  shows "\<exists>j. res = Inr (dict_of (map fst corpus)
         ((rank_update corpus d ^^ Suc j) (\<lambda>k. 1 / real (length corpus))))"
  using loop_result [OF assms(2) [unfolded iterate_pagerank_start [OF assms(1)]]] assms(1)
  by blast

lemma keys_nonneg_dict_of:
  "(\<And>k. 0 \<le> f k) \<Longrightarrow> keys_nonneg corpus (dict_of (map fst corpus) f)"
  by (simp add: keys_nonneg_def dict_of_def list_all_iff comp_def)

section \<open>The order in which a set lists its links\<close>

lemma same_graph_keys: "same_graph g g' \<Longrightarrow> map fst g = map fst g'"
  unfolding same_graph_def by (induction g g' rule: list_all2_induct) auto

lemma same_graph_lookup:
  "same_graph g g' \<Longrightarrow> map_of g i = Some links \<Longrightarrow>
   \<exists>links'. map_of g' i = Some links' \<and> set links = set links'"
  unfolding same_graph_def by (induction g g' rule: list_all2_induct) (auto split: if_splits)

lemma same_graph_summation:
  assumes "wf_corpus g" "wf_corpus g'" "same_graph g g'"
  shows "summation_of g N cur key = summation_of g' N cur key"
proof -
  have keys: "map fst g = map fst g'" by (rule same_graph_keys [OF assms(3)])
  let ?body = "\<lambda>corpus i summation.
       ebind (getitem corpus i) (\<lambda>links.
         if key \<in> set links then
           ebind (getitem cur i) (\<lambda>r.
           ebind (truediv r (real (length links))) (\<lambda>q. Inr (summation + q)))
         else if length links = 0 then
           ebind (getitem cur i) (\<lambda>r.
           ebind (truediv r (real N)) (\<lambda>q. Inr (summation + q)))
         else Inr summation)"
  have "?body g i s = ?body g' i s" if i: "i \<in> set (map fst g)" for i s
  proof -
    obtain links where l: "map_of g i = Some links" using lookup_key [OF i] by blast
    obtain links' where l': "map_of g' i = Some links'" "set links = set links'"
      using same_graph_lookup [OF assms(3) l] by blast
    have "distinct links" "distinct links'"
      using wf_corpus_lookup [OF assms(1) l] wf_corpus_lookup [OF assms(2) l'(1)] by simp_all
    then have "length links = length links'"
      using l'(2) distinct_card [of links] distinct_card [of links'] by simp
    then show ?thesis using l l' by (simp add: getitem_def)
  qed
  then have "for_each (map fst g) (?body g) 0 = for_each (map fst g) (?body g') 0"
    by (rule for_each_cong_set)
  then show ?thesis unfolding summation_of_def keys [symmetric] .
qed

lemma same_graph_new_rank:
  assumes "wf_corpus g" "wf_corpus g'" "same_graph g g'"
  shows "new_rank g d N cur = new_rank g' d N cur"
  unfolding new_rank_def same_graph_summation [OF assms] ..

lemma same_graph_loop_le:
  assumes "\<And>d N cur. new_rank g d N cur = new_rank g' d N cur"
    and "iterate_loop corpus d N cur = Some res"
  shows "corpus = g \<longrightarrow> iterate_loop g' d N cur = Some res"
proof -
  define P where "P = (\<lambda>corpus d N cur (res :: error + real dict). corpus = g \<longrightarrow> iterate_loop g' d N cur = Some res)"
  have "P corpus d N cur res"
  proof (rule iterate_loop.raw_induct [where P = P, OF _ assms(2)])
  fix f corpus d N cur res
  assume IH: "\<And>a b c e y. f a b c e = Some y \<Longrightarrow> P a b c e y"
  assume pass: "(case new_rank corpus d N cur of
        Inl e \<Rightarrow> Some (Inl e)
      | Inr newRank \<Rightarrow>
          (case differences cur newRank of
             Inl e \<Rightarrow> Some (Inl e)
           | Inr diff \<Rightarrow>
               if list_all (\<lambda>i. i < 0.0015) diff then Some (Inr newRank)
               else f corpus d N newRank)) = Some res"
  show "P corpus d N cur res" unfolding P_def
  proof
    assume g: "corpus = g"
    have body: "(case new_rank g' d N cur of
        Inl e \<Rightarrow> Some (Inl e)
      | Inr newRank \<Rightarrow>
          (case differences cur newRank of
             Inl e \<Rightarrow> Some (Inl e)
           | Inr diff \<Rightarrow>
               if list_all (\<lambda>i. i < 0.0015) diff then Some (Inr newRank)
               else f g d N newRank)) = Some res"
      using pass unfolding g assms(1) .
    show "iterate_loop g' d N cur = Some res"
    proof (cases "new_rank g' d N cur")
      case (Inl e)
      then have "res = Inl e" using body by simp
      then show ?thesis using Inl by (subst iterate_loop.simps) simp
    next
      case new: (Inr newRank)
      show ?thesis
      proof (cases "differences cur newRank")
        case (Inl e)
        then have "res = Inl e" using body new by simp
        then show ?thesis using new Inl by (subst iterate_loop.simps) simp
      next
        case (Inr diff)
        show ?thesis
        proof (cases "list_all (\<lambda>i. i < 0.0015) diff")
          case True
          then have "res = Inr newRank" using body new Inr by simp
          then show ?thesis using new Inr True by (subst iterate_loop.simps) simp
        next
          case False
          then have "f g d N newRank = Some res"
            using body new Inr by simp
          then have "P g d N newRank res" by (rule IH)
          then have "iterate_loop g' d N newRank = Some res"
            unfolding P_def by simp
          then show ?thesis using new Inr False
            by (subst iterate_loop.simps) simp
        qed
      qed
    qed
  qed
  qed
  then show ?thesis unfolding P_def .
qed

lemma same_graph_loop:
  assumes "\<And>d N cur. new_rank g d N cur = new_rank g' d N cur"
  shows "iterate_loop g d N cur = iterate_loop g' d N cur"
proof (cases "iterate_loop g d N cur")
  case (Some res)
  then show ?thesis using same_graph_loop_le [OF assms Some] by simp
next
  case None
  show ?thesis
  proof (cases "iterate_loop g' d N cur")
    case None': None
    then show ?thesis using None by simp
  next
    case (Some res)
    then have "iterate_loop g d N cur = Some res"
      using same_graph_loop_le [of g' g g' d N cur res] assms by simp
    then show ?thesis using None by simp
  qed
qed

lemma same_graph_iterate:
  assumes "wf_corpus g" "wf_corpus g'" "same_graph g g'"
  shows "iterate_pagerank g d = iterate_pagerank g' d"
proof -
  have keys: "map fst g = map fst g'" by (rule same_graph_keys [OF assms(3)])
  then have len: "length g = length g'" by (metis length_map)
  have init: "initial_rank g N = initial_rank g' N" for N
    unfolding initial_rank_def keys ..
  have loop: "iterate_loop g d N cur = iterate_loop g' d N cur" for N cur
    by (rule same_graph_loop) (rule same_graph_new_rank [OF assms])
  show ?thesis unfolding iterate_pagerank_def len init loop ..
qed

section \<open>A corpus on which the solver never stops\<close>

lemma periodic_pass:
  "new_rank periodic_corpus 1 3 [(''A'', a), (''B'', b), (''C'', c)]
     = Inr [(''A'', b + c), (''B'', a), (''C'', 0)]"
  by (simp add: new_rank_def summation_of_def periodic_corpus_def getitem_def setitem_def
      truediv_def)

lemma periodic_differences:
  "differences [(''A'', a), (''B'', b), (''C'', c)] [(''A'', a'), (''B'', b'), (''C'', c')]
     = Inr [\<bar>a - a'\<bar>, \<bar>b - b'\<bar>, \<bar>c - c'\<bar>]"
  by (simp add: differences_def getitem_def)

lemma periodic_never_returns:
  assumes "iterate_loop corpus d N cur = Some res"
  shows "corpus = periodic_corpus \<longrightarrow> d = 1 \<longrightarrow> N = 3 \<longrightarrow>
     cur \<in> {[(''A'', 1 / 3), (''B'', 1 / 3), (''C'', 1 / 3)],
            [(''A'', 2 / 3), (''B'', 1 / 3), (''C'', 0)],
            [(''A'', 1 / 3), (''B'', 2 / 3), (''C'', 0)]} \<longrightarrow> False"
proof -
  define P where "P = (\<lambda>corpus (d::real) (N::nat) cur (res :: error + real dict).
     corpus = periodic_corpus \<longrightarrow> d = 1 \<longrightarrow> N = 3 \<longrightarrow>
     cur \<in> {[(''A'', 1 / 3), (''B'', 1 / 3), (''C'', 1 / 3)],
            [(''A'', 2 / 3), (''B'', 1 / 3), (''C'', 0)],
            [(''A'', 1 / 3), (''B'', 2 / 3), (''C'', 0::real)]} \<longrightarrow> False)"
  have "P corpus d N cur res"
  proof (rule iterate_loop.raw_induct [where P = P, OF _ assms])
    fix f corpus d N cur res
    assume IH: "\<And>a b c e y. f a b c e = Some y \<Longrightarrow> P a b c e y"
    assume pass: "(case new_rank corpus d N cur of
        Inl e \<Rightarrow> Some (Inl e)
      | Inr newRank \<Rightarrow>
          (case differences cur newRank of
             Inl e \<Rightarrow> Some (Inl e)
           | Inr diff \<Rightarrow>
               if list_all (\<lambda>i. i < 0.0015) diff then Some (Inr newRank)
               else f corpus d N newRank)) = Some res"
    show "P corpus d N cur res" unfolding P_def
    proof (intro impI)
      assume c: "corpus = periodic_corpus" "d = 1" "N = 3"
        and cur: "cur \<in> {[(''A'', 1 / 3), (''B'', 1 / 3), (''C'', 1 / 3)],
            [(''A'', 2 / 3), (''B'', 1 / 3), (''C'', 0)],
            [(''A'', 1 / 3), (''B'', 2 / 3), (''C'', 0)]}"
      from cur consider
          "cur = [(''A'', 1 / 3), (''B'', 1 / 3), (''C'', 1 / 3)]"
        | "cur = [(''A'', 2 / 3), (''B'', 1 / 3), (''C'', 0)]"
        | "cur = [(''A'', 1 / 3), (''B'', 2 / 3), (''C'', 0)]" by blast
      then show False
      proof cases
        case 1
        then have "f periodic_corpus 1 3 [(''A'', 2 / 3), (''B'', 1 / 3), (''C'', 0)] = Some res"
          using pass unfolding c by (simp add: periodic_pass periodic_differences)
        then have "P periodic_corpus 1 3 [(''A'', 2 / 3), (''B'', 1 / 3), (''C'', 0)] res" by (rule IH)
        then show False unfolding P_def by simp
      next
        case 2
        then have "f periodic_corpus 1 3 [(''A'', 1 / 3), (''B'', 2 / 3), (''C'', 0)] = Some res"
          using pass unfolding c by (simp add: periodic_pass periodic_differences)
        then have "P periodic_corpus 1 3 [(''A'', 1 / 3), (''B'', 2 / 3), (''C'', 0)] res" by (rule IH)
        then show False unfolding P_def by simp
      next
        case 3
        then have "f periodic_corpus 1 3 [(''A'', 2 / 3), (''B'', 1 / 3), (''C'', 0)] = Some res"
          using pass unfolding c by (simp add: periodic_pass periodic_differences)
        then have "P periodic_corpus 1 3 [(''A'', 2 / 3), (''B'', 1 / 3), (''C'', 0)] res" by (rule IH)
        then show False unfolding P_def by simp
      qed
    qed
  qed
  then show ?thesis unfolding P_def .
qed

section \<open>The transition model, claim by claim\<close>

text \<open>
  C3. On a graph whose links stay inside the graph, for a page with a non-empty set of
  out-links \<open>L\<close> and any damping factor \<open>d\<close>, the transition model gives every node
  outside \<open>L\<close> the probability \<open>(1 - d) / N\<close> and every node of \<open>L\<close> the probability
  \<open>(1 - d) / N + d / |L|\<close>, where \<open>N\<close> is the number of nodes.
\<close>

theorem transition_model_non_sink:
  assumes "wf_corpus corpus" "links_closed corpus"
    and "map_of corpus page = Some links" "links \<noteq> []"
  shows "transition_model corpus page d =
     Inr (dict_of (map fst corpus) (\<lambda>k.
       if k \<in> set links
       then (1 - d) / real (length corpus) + d / real (length links)
       else (1 - d) / real (length corpus)))"
proof -
  have "distinct (map fst corpus)" using assms(1) by (simp add: wf_corpus_def)
  then show ?thesis
    using transition_model_links [of corpus page links d] assms(3,4)
      wf_corpus_lookup [OF assms(1,3)] links_closed_lookup [OF assms(2,3)]
    by simp
qed

theorem transition_model_non_sink_witness:
  "wf_corpus module_corpus \<and> links_closed module_corpus
   \<and> map_of module_corpus ''1.html'' = Some [''2.html'', ''3.html'']
   \<and> transition_model module_corpus ''1.html'' (85 / 100) =
       Inr [(''1.html'', 1 / 20), (''2.html'', 19 / 40), (''3.html'', 19 / 40)]"
  using transition_model_non_sink [of module_corpus "''1.html''" "[''2.html'', ''3.html'']" "85 / 100"]
  by (simp add: module_corpus_def wf_corpus_def links_closed_def dict_of_def)

text \<open>
  C4. For a page of the graph without out-links the transition model is uniform: every node
  gets exactly \<open>1 / N\<close>, whatever the damping factor.
\<close>

theorem transition_model_sink_uniform:
  assumes "wf_corpus corpus" "map_of corpus page = Some []"
  shows "transition_model corpus page d =
     Inr (dict_of (map fst corpus) (\<lambda>k. 1 / real (length corpus)))"
proof -
  have "distinct (map fst corpus)" using assms(1) by (simp add: wf_corpus_def)
  then show ?thesis using assms(2) by (rule transition_model_sink)
qed

theorem transition_model_sink_uniform_witness:
  "wf_corpus sink_corpus \<and> map_of sink_corpus ''B'' = Some []
   \<and> transition_model sink_corpus ''B'' (85 / 100) = Inr [(''A'', 1 / 2), (''B'', 1 / 2)]"
  using transition_model_sink_uniform [of sink_corpus "''B''" "85 / 100"]
  by (simp add: sink_corpus_def wf_corpus_def dict_of_def)

section \<open>The sampling estimator, claim by claim\<close>

text \<open>
  C1. The loop over \<open>range(1, n)\<close> runs \<open>n - 1\<close> times and records one visit in each run,
  so for \<open>n \<ge> 1\<close> the sampler records \<open>n - 1\<close> visits, not \<open>n\<close>; after the division by \<open>n\<close>
  the values sum to \<open>(n - 1) / n\<close>, not to 1.
\<close>

theorem sample_pagerank_visits:
  assumes "wf_corpus corpus" "links_closed corpus" "corpus \<noteq> []"
    and "uniform_source rnd" "1 \<le> n"
  shows "\<exists>visits. sample_pagerank corpus d n rnd
             = Inr (dict_of (map fst corpus) (\<lambda>k. visits k / real_of_int n))
           \<and> sum_list (map visits (map fst corpus)) = real_of_int n - 1
           \<and> sum_list (map (\<lambda>k. visits k / real_of_int n) (map fst corpus))
               = (real_of_int n - 1) / real_of_int n"
proof -
  have n: "n \<noteq> 0" using assms(5) by simp
  obtain c where c: "sample_pagerank corpus d n rnd
        = Inr (dict_of (map fst corpus) (\<lambda>k. c k / real_of_int n))"
    "sum_list (map c (map fst corpus)) = real (nat (n - 1))"
    using sample_pagerank_total [OF assms(1-4) n, of d] by blast
  have total: "sum_list (map c (map fst corpus)) = real_of_int n - 1"
    using c(2) assms(5) by simp
  have "sum_list (map (\<lambda>k. c k / real_of_int n) (map fst corpus))
      = (real_of_int n - 1) / real_of_int n"
    unfolding sum_list_divide total ..
  then show ?thesis using c(1) total by blast
qed

theorem sample_pagerank_visits_witness:
  "wf_corpus sink_corpus \<and> links_closed sink_corpus \<and> sink_corpus \<noteq> [] \<and> uniform_source halves
   \<and> (1::int) \<le> 3
   \<and> (\<exists>visits. sample_pagerank sink_corpus (85 / 100) 3 halves
             = Inr (dict_of (map fst sink_corpus) (\<lambda>k. visits k / real_of_int 3))
           \<and> sum_list (map visits (map fst sink_corpus)) = real_of_int 3 - 1
           \<and> sum_list (map (\<lambda>k. visits k / real_of_int 3) (map fst sink_corpus))
               = (real_of_int 3 - 1) / real_of_int 3)"
proof -
  have h: "wf_corpus sink_corpus" "links_closed sink_corpus" "sink_corpus \<noteq> []"
    "uniform_source halves" "(1::int) \<le> 3"
    by (simp_all add: sink_corpus_def wf_corpus_def links_closed_def uniform_source_def halves_def)
  show ?thesis using h sample_pagerank_visits [OF h, of "85 / 100"] by blast
qed

text \<open>
  C6. With \<open>n = 1\<close> the loop body never runs, so no visit is recorded: the sampler returns
  0 for every node, the start node included, and not a one-hot distribution.
\<close>

theorem sample_pagerank_one_sample:
  assumes "wf_corpus corpus" "corpus \<noteq> []" "uniform_source rnd"
  shows "sample_pagerank corpus d 1 rnd = Inr (dict_of (map fst corpus) (\<lambda>k. 0))"
  using assms by (simp add: sample_pagerank_no_walk)

theorem sample_pagerank_one_sample_witness:
  "wf_corpus module_corpus \<and> module_corpus \<noteq> [] \<and> uniform_source halves
   \<and> sample_pagerank module_corpus (85 / 100) 1 halves
       = Inr [(''1.html'', 0), (''2.html'', 0), (''3.html'', 0)]"
  using sample_pagerank_one_sample [of module_corpus halves "85 / 100"]
  by (simp add: module_corpus_def wf_corpus_def uniform_source_def halves_def dict_of_def)

section \<open>Violated preconditions\<close>

text \<open>
  C8, as the claim states it, fails: a negative sample count is not rejected, the sampler
  returns the all-zero dictionary.
\<close>

theorem negative_sample_count_counterexample:
  "sample_pagerank sink_corpus (85 / 100) (- 1) halves = Inr [(''A'', 0), (''B'', 0)]"
  by (simp add: sample_pagerank_def sink_corpus_def halves_def choice_def getitem_def
      setitem_def truediv_def)

text \<open>
  C8, amended. A page that is not a key of the graph (every page, when the graph is empty)
  makes the transition model raise \<open>KeyError\<close>; an empty graph makes the sampler raise
  \<open>IndexError\<close>; a sample count of 0 on a non-empty graph makes the sampler raise
  \<open>ZeroDivisionError\<close>. A negative sample count and, for the iterative solver, an empty
  graph are not rejected: the sampler then returns the all-zero dictionary and the solver
  the empty dictionary.
\<close>

theorem precondition_violations:
  "(map_of corpus page = None \<longrightarrow> transition_model corpus page d = Inl KeyError)
   \<and> sample_pagerank [] d n rnd = Inl IndexError
   \<and> (wf_corpus corpus \<and> corpus \<noteq> [] \<longrightarrow>
        sample_pagerank corpus d 0 rnd = Inl ZeroDivisionError)
   \<and> (wf_corpus corpus \<and> corpus \<noteq> [] \<and> uniform_source rnd \<and> n < 0 \<longrightarrow>
        sample_pagerank corpus d n rnd = Inr (dict_of (map fst corpus) (\<lambda>k. 0)))
   \<and> iterate_pagerank [] d = Some (Inr [])"
proof (intro conjI impI)
  assume "map_of corpus page = None"
  then show "transition_model corpus page d = Inl KeyError"
    by (simp add: transition_model_def getitem_def)
next
  show "sample_pagerank [] d n rnd = Inl IndexError"
    by (simp add: sample_pagerank_def choice_def)
next
  assume "wf_corpus corpus \<and> corpus \<noteq> []"
  then show "sample_pagerank corpus d 0 rnd = Inl ZeroDivisionError"
    by (simp add: sample_pagerank_zero)
next
  assume "wf_corpus corpus \<and> corpus \<noteq> [] \<and> uniform_source rnd \<and> n < 0"
  then show "sample_pagerank corpus d n rnd = Inr (dict_of (map fst corpus) (\<lambda>k. 0))"
    by (simp add: sample_pagerank_no_walk)
next
  show "iterate_pagerank [] d = Some (Inr [])" by (rule iterate_pagerank_empty)
qed

theorem precondition_violations_witness:
  "map_of sink_corpus ''C'' = None \<and> wf_corpus sink_corpus \<and> sink_corpus \<noteq> []
   \<and> uniform_source halves \<and> (- 1 :: int) < 0
   \<and> transition_model sink_corpus ''C'' (85 / 100) = Inl KeyError
   \<and> sample_pagerank [] (85 / 100) (- 1) halves = Inl IndexError
   \<and> sample_pagerank sink_corpus (85 / 100) 0 halves = Inl ZeroDivisionError
   \<and> sample_pagerank sink_corpus (85 / 100) (- 1) halves = Inr [(''A'', 0), (''B'', 0)]
   \<and> iterate_pagerank [] (85 / 100) = Some (Inr [])"
proof -
  have h: "map_of sink_corpus ''C'' = None" "wf_corpus sink_corpus" "sink_corpus \<noteq> []"
    "uniform_source halves" "(- 1 :: int) < 0"
    by (simp_all add: sink_corpus_def wf_corpus_def uniform_source_def halves_def)
  have keys: "dict_of (map fst sink_corpus) (\<lambda>k. 0::real) = [(''A'', 0), (''B'', 0)]"
    by (simp add: sink_corpus_def dict_of_def)
  show ?thesis
    using h keys precondition_violations [of sink_corpus "''C''" "85 / 100" "- 1" halves]
    by simp
qed

section \<open>The graph of a single node\<close>

text \<open>
  C7. On the graph of one node without out-links the solver returns 1 for the node, but the
  sampler, which records \<open>n - 1\<close> visits for \<open>n\<close> samples, returns \<open>(n - 1) / n\<close> and
  not 1.
\<close>

theorem single_node_graph:
  assumes "uniform_source rnd" "1 \<le> n"
  shows "sample_pagerank [(v, [])] d n rnd = Inr [(v, (real_of_int n - 1) / real_of_int n)]
     \<and> iterate_pagerank [(v, [])] d = Some (Inr [(v, 1)])"
proof
  let ?g = "[(v, [])] :: corpus"
  have wf: "wf_corpus ?g" "links_closed ?g" "?g \<noteq> []"
    by (simp_all add: wf_corpus_def links_closed_def)
  have n: "n \<noteq> 0" using assms(2) by simp
  obtain c where c: "sample_pagerank ?g d n rnd
        = Inr (dict_of (map fst ?g) (\<lambda>k. c k / real_of_int n))"
    "sum_list (map c (map fst ?g)) = real (nat (n - 1))"
    using sample_pagerank_total [OF wf assms(1) n, of d] by blast
  have "c v = real_of_int n - 1" using c(2) assms(2) by simp
  then show "sample_pagerank ?g d n rnd = Inr [(v, (real_of_int n - 1) / real_of_int n)]"
    using c(1) by (simp add: dict_of_def)
next
  let ?g = "[(v, [])] :: corpus"
  have dk: "distinct (map fst ?g)" by simp
  have step: "rank_update ?g d (\<lambda>k. 1) v = 1"
    by (simp add: rank_update_def contribution_def)
  have "iterate_loop ?g d (length ?g) (dict_of (map fst ?g) (\<lambda>k. 1))
      = Some (Inr (dict_of (map fst ?g) (rank_update ?g d (\<lambda>k. 1))))"
    by (subst iterate_loop_pass [OF dk]) (simp add: step)
  then show "iterate_pagerank ?g d = Some (Inr [(v, 1)])"
    unfolding iterate_pagerank_start [OF dk] by (simp add: dict_of_def step)
qed

theorem single_node_graph_witness:
  "uniform_source halves \<and> (1::int) \<le> 2
   \<and> sample_pagerank [(''A'', [])] (85 / 100) 2 halves = Inr [(''A'', 1 / 2)]
   \<and> iterate_pagerank [(''A'', [])] (85 / 100) = Some (Inr [(''A'', 1)])"
proof -
  have h: "uniform_source halves" "(1::int) \<le> 2"
    by (simp_all add: uniform_source_def halves_def)
  show ?thesis using h single_node_graph [OF h, of "''A''" "85 / 100"] by simp
qed

section \<open>The iterative solver, claim by claim\<close>

text \<open>
  C2, as the claim states it, fails: the threshold of the code is 0.0015, not 0.001. On the
  two-page corpus with damping factor 0.005 the first round changes each rank by 0.00125,
  and the solver stops there.
\<close>

theorem threshold_counterexample:
  "initial_rank sink_corpus 2 = Inr [(''A'', 1 / 2), (''B'', 1 / 2)]
   \<and> new_rank sink_corpus (1 / 200) 2 [(''A'', 1 / 2), (''B'', 1 / 2)]
       = Inr [(''A'', 399 / 800), (''B'', 401 / 800)]
   \<and> \<not> \<bar>1 / 2 - 399 / 800\<bar> < (1 / 1000 :: real)
   \<and> iterate_pagerank sink_corpus (1 / 200) = Some (Inr [(''A'', 399 / 800), (''B'', 401 / 800)])"
proof -
  have init: "initial_rank sink_corpus 2 = Inr [(''A'', 1 / 2), (''B'', 1 / 2)]"
    by (simp add: initial_rank_def sink_corpus_def truediv_def setitem_def)
  have new: "new_rank sink_corpus (1 / 200) 2 [(''A'', 1 / 2), (''B'', 1 / 2)]
       = Inr [(''A'', 399 / 800), (''B'', 401 / 800)]"
    by (simp add: new_rank_def summation_of_def sink_corpus_def getitem_def setitem_def
        truediv_def)
  have diff: "differences [(''A'', 1 / 2), (''B'', 1 / 2)] [(''A'', 399 / 800), (''B'', 401 / 800)]
       = Inr [1 / 800, 1 / 800]"
    by (simp add: differences_def getitem_def)
  have loop: "iterate_loop sink_corpus (1 / 200) 2 [(''A'', 1 / 2), (''B'', 1 / 2)]
       = Some (Inr [(''A'', 399 / 800), (''B'', 401 / 800)])"
    by (subst iterate_loop.simps) (simp add: new diff)
  have len: "length sink_corpus = 2" by (simp add: sink_corpus_def)
  have run: "iterate_pagerank sink_corpus (1 / 200)
       = Some (Inr [(''A'', 399 / 800), (''B'', 401 / 800)])"
    by (simp add: iterate_pagerank_def len init loop)
  have "\<not> \<bar>1 / 2 - 399 / 800\<bar> < (1 / 1000 :: real)" by simp
  then show ?thesis using init new run by blast
qed

text \<open>
  C2, amended. The solver runs its loop from the initial ranks, and a round of the loop
  from ranks \<open>currentRank\<close> computes new ranks without failing, returns them when every node's
  old and new rank differ by less than 0.0015, and otherwise repeats from the new ranks.
\<close>

theorem iterate_loop_stops:
  assumes "wf_corpus corpus"
  shows "iterate_pagerank corpus d
       = iterate_loop corpus d (length corpus)
           (dict_of (map fst corpus) (\<lambda>k. 1 / real (length corpus)))
     \<and> (\<exists>newRank.
          new_rank corpus d (length corpus) (dict_of (map fst corpus) currentRank)
            = Inr (dict_of (map fst corpus) newRank)
          \<and> iterate_loop corpus d (length corpus) (dict_of (map fst corpus) currentRank) =
             (if \<forall>k \<in> set (map fst corpus). \<bar>currentRank k - newRank k\<bar> < 0.0015
              then Some (Inr (dict_of (map fst corpus) newRank))
              else iterate_loop corpus d (length corpus) (dict_of (map fst corpus) newRank)))"
proof -
  have dk: "distinct (map fst corpus)" using assms by (simp add: wf_corpus_def)
  show ?thesis
    using new_rank_eq [OF dk, of d currentRank] iterate_loop_pass [OF dk, of d currentRank]
      iterate_pagerank_start [OF dk, of d]
    by blast
qed

theorem iterate_loop_stops_witness:
  "wf_corpus sink_corpus
   \<and> iterate_pagerank sink_corpus (85 / 100)
       = iterate_loop sink_corpus (85 / 100) (length sink_corpus)
           (dict_of (map fst sink_corpus) (\<lambda>k. 1 / real (length sink_corpus)))
   \<and> (\<exists>newRank.
         new_rank sink_corpus (85 / 100) (length sink_corpus)
             (dict_of (map fst sink_corpus) (\<lambda>k. 1 / 2))
           = Inr (dict_of (map fst sink_corpus) newRank)
         \<and> iterate_loop sink_corpus (85 / 100) (length sink_corpus)
             (dict_of (map fst sink_corpus) (\<lambda>k. 1 / 2)) =
            (if \<forall>k \<in> set (map fst sink_corpus). \<bar>1 / 2 - newRank k\<bar> < 0.0015
             then Some (Inr (dict_of (map fst sink_corpus) newRank))
             else iterate_loop sink_corpus (85 / 100) (length sink_corpus)
                    (dict_of (map fst sink_corpus) newRank)))"
proof -
  have h: "wf_corpus sink_corpus" by (simp add: sink_corpus_def wf_corpus_def)
  show ?thesis using h iterate_loop_stops [OF h, of "85 / 100" "\<lambda>k. 1 / 2"] by blast
qed

text \<open>
  C5. The solver starts from the rank \<open>1 / N\<close> for every node and runs its loop from there.
  Every round of the loop, from ranks \<open>currentRank\<close>, computes the ranks that give node \<open>p\<close>
  the value \<open>(1 - d) / N\<close> plus \<open>d\<close> times the sum over all nodes \<open>i\<close> of the contribution
  of \<open>i\<close> to \<open>p\<close>: these are the ranks it compares with, returns, or continues from.
\<close>

theorem iterate_pagerank_recurrence:
  assumes "wf_corpus corpus"
  shows "initial_rank corpus (length corpus)
           = Inr (dict_of (map fst corpus) (\<lambda>k. 1 / real (length corpus)))
     \<and> iterate_pagerank corpus d
           = iterate_loop corpus d (length corpus)
               (dict_of (map fst corpus) (\<lambda>k. 1 / real (length corpus)))
     \<and> new_rank corpus d (length corpus) (dict_of (map fst corpus) currentRank)
           = Inr (dict_of (map fst corpus) (\<lambda>p.
               (1 - d) / real (length corpus)
                 + d * (\<Sum>i\<leftarrow>map fst corpus. contribution corpus currentRank i p)))
     \<and> iterate_loop corpus d (length corpus) (dict_of (map fst corpus) currentRank)
           = (if \<forall>k \<in> set (map fst corpus).
                   \<bar>currentRank k
                     - ((1 - d) / real (length corpus)
                         + d * (\<Sum>i\<leftarrow>map fst corpus. contribution corpus currentRank i k))\<bar>
                   < 0.0015
              then Some (Inr (dict_of (map fst corpus) (\<lambda>p.
                     (1 - d) / real (length corpus)
                       + d * (\<Sum>i\<leftarrow>map fst corpus. contribution corpus currentRank i p))))
              else iterate_loop corpus d (length corpus) (dict_of (map fst corpus) (\<lambda>p.
                     (1 - d) / real (length corpus)
                       + d * (\<Sum>i\<leftarrow>map fst corpus. contribution corpus currentRank i p))))"
proof -
  have dk: "distinct (map fst corpus)" using assms by (simp add: wf_corpus_def)
  have step: "rank_update corpus d currentRank = (\<lambda>p.
               (1 - d) / real (length corpus)
                 + d * (\<Sum>i\<leftarrow>map fst corpus. contribution corpus currentRank i p))"
    by (simp add: fun_eq_iff rank_update_def)
  have pass: "iterate_loop corpus d (length corpus) (dict_of (map fst corpus) currentRank)
           = (if \<forall>k \<in> set (map fst corpus).
                   \<bar>currentRank k - rank_update corpus d currentRank k\<bar> < 0.0015
              then Some (Inr (dict_of (map fst corpus) (rank_update corpus d currentRank)))
              else iterate_loop corpus d (length corpus)
                     (dict_of (map fst corpus) (rank_update corpus d currentRank)))"
    by (rule iterate_loop_pass [OF dk])
  show ?thesis
    using initial_rank_eq [OF dk] iterate_pagerank_start [OF dk, of d]
      new_rank_eq [OF dk, of d currentRank] pass
    unfolding step by blast
qed

theorem iterate_pagerank_recurrence_witness:
  "wf_corpus sink_corpus
   \<and> initial_rank sink_corpus 2 = Inr [(''A'', 1 / 2), (''B'', 1 / 2)]
   \<and> iterate_pagerank sink_corpus (85 / 100)
       = iterate_loop sink_corpus (85 / 100) 2 [(''A'', 1 / 2), (''B'', 1 / 2)]
   \<and> new_rank sink_corpus (85 / 100) 2 [(''A'', 1 / 2), (''B'', 1 / 2)]
       = Inr [(''A'', 23 / 80), (''B'', 57 / 80)]
   \<and> iterate_loop sink_corpus (85 / 100) 2 [(''A'', 1 / 2), (''B'', 1 / 2)]
       = iterate_loop sink_corpus (85 / 100) 2 [(''A'', 23 / 80), (''B'', 57 / 80)]"
proof -
  have h: "wf_corpus sink_corpus" by (simp add: sink_corpus_def wf_corpus_def)
  have len: "length sink_corpus = 2" by (simp add: sink_corpus_def)
  have cur: "dict_of (map fst sink_corpus) (\<lambda>k. 1 / real 2) = [(''A'', 1 / 2), (''B'', 1 / 2)]"
    by (simp add: sink_corpus_def dict_of_def)
  have cur': "dict_of (map fst sink_corpus) (\<lambda>k. 1 / 2 :: real) = [(''A'', 1 / 2), (''B'', 1 / 2)]"
    by (simp add: sink_corpus_def dict_of_def)
  have new: "dict_of (map fst sink_corpus) (\<lambda>p. (1 - 85 / 100) / real 2
         + 85 / 100 * (\<Sum>i\<leftarrow>map fst sink_corpus. contribution sink_corpus (\<lambda>k. 1 / 2) i p))
       = [(''A'', 23 / 80), (''B'', 57 / 80)]"
    by (simp add: sink_corpus_def dict_of_def contribution_def)
  have far: "\<not> (\<forall>k \<in> set (map fst sink_corpus).
       \<bar>1 / 2 - ((1 - 85 / 100) / real 2
         + 85 / 100 * (\<Sum>i\<leftarrow>map fst sink_corpus. contribution sink_corpus (\<lambda>k. 1 / 2) i k))\<bar>
       < 0.0015)"
    by (simp add: sink_corpus_def contribution_def)
  show ?thesis
    using h iterate_pagerank_recurrence [OF h, of "85 / 100" "\<lambda>k. 1 / 2"]
    unfolding len cur cur' new if_not_P [OF far] by blast
qed

text \<open>
  C9. The solver draws nothing at random, and the one thing that may differ between two
  invocations on the same graph, the order in which a set of links is listed, does not
  reach its result: two representations of one graph give the same outcome.
\<close>

theorem iterate_pagerank_deterministic:
  assumes "wf_corpus g" "wf_corpus g'" "same_graph g g'"
  shows "iterate_pagerank g d = iterate_pagerank g' d"
  using assms by (rule same_graph_iterate)

theorem iterate_pagerank_deterministic_witness:
  "wf_corpus module_corpus \<and> wf_corpus reordered_corpus
   \<and> same_graph module_corpus reordered_corpus
   \<and> iterate_pagerank module_corpus (85 / 100) = iterate_pagerank reordered_corpus (85 / 100)"
proof -
  have h: "wf_corpus module_corpus" "wf_corpus reordered_corpus"
    "same_graph module_corpus reordered_corpus"
    by (auto simp: module_corpus_def reordered_corpus_def wf_corpus_def same_graph_def)
  show ?thesis using h iterate_pagerank_deterministic [OF h, of "85 / 100"] by blast
qed

section \<open>Keys and signs of the outputs\<close>

text \<open>
  C10, as the claim states it, fails for the solver: with damping factor 1 the ranks of the
  three-page corpus oscillate for ever and the solver returns nothing.
\<close>

theorem periodic_corpus_counterexample:
  "iterate_pagerank periodic_corpus 1 = None"
proof -
  have init: "initial_rank periodic_corpus 3 = Inr [(''A'', 1 / 3), (''B'', 1 / 3), (''C'', 1 / 3)]"
    by (simp add: initial_rank_def periodic_corpus_def truediv_def setitem_def)
  have "iterate_loop periodic_corpus 1 3 [(''A'', 1 / 3), (''B'', 1 / 3), (''C'', 1 / 3)] \<noteq> Some res" for res
    using periodic_never_returns [of periodic_corpus 1 3 "[(''A'', 1 / 3), (''B'', 1 / 3), (''C'', 1 / 3)]" res]
    by auto
  then have "iterate_loop periodic_corpus 1 3 [(''A'', 1 / 3), (''B'', 1 / 3), (''C'', 1 / 3)] = None"
    by (cases "iterate_loop periodic_corpus 1 3 [(''A'', 1 / 3), (''B'', 1 / 3), (''C'', 1 / 3)]") auto
  moreover have "length periodic_corpus = 3" by (simp add: periodic_corpus_def)
  ultimately show ?thesis
    using init by (simp add: iterate_pagerank_def)
qed

text \<open>
  C10, amended. On a non-empty graph whose links stay inside the graph, with a damping
  factor between 0 and 1, the transition model (for a page of the graph) and the sampler
  (for \<open>n \<ge> 1\<close>) return a dictionary with the keys of the graph and no negative value;
  whenever the solver returns, it returns such a dictionary.
\<close>

theorem outputs_keep_keys:
  assumes "wf_corpus corpus" "links_closed corpus" "corpus \<noteq> []" "0 \<le> d" "d \<le> 1"
  shows "(page \<in> set (map fst corpus) \<longrightarrow>
           (\<exists>output. transition_model corpus page d = Inr output \<and> keys_nonneg corpus output))
     \<and> (uniform_source rnd \<and> 1 \<le> n \<longrightarrow>
           (\<exists>output. sample_pagerank corpus d n rnd = Inr output \<and> keys_nonneg corpus output))
     \<and> (iterate_pagerank corpus d = Some res \<longrightarrow>
           (\<exists>output. res = Inr output \<and> keys_nonneg corpus output))"
proof (intro conjI impI)
  assume "page \<in> set (map fst corpus)"
  then obtain f where "transition_model corpus page d = Inr (dict_of (map fst corpus) f)"
    "\<forall>k. 0 \<le> f k"
    using transition_model_total [OF assms(1,2), of page d] assms(4,5) by blast
  then show "\<exists>output. transition_model corpus page d = Inr output \<and> keys_nonneg corpus output"
    by (simp add: keys_nonneg_dict_of)
next
  assume s: "uniform_source rnd \<and> 1 \<le> n"
  then have n: "n \<noteq> 0" "0 < real_of_int n" by simp_all
  obtain c where c: "sample_pagerank corpus d n rnd
        = Inr (dict_of (map fst corpus) (\<lambda>k. c k / real_of_int n))" "\<forall>k. 0 \<le> c k"
    using sample_pagerank_total [OF assms(1-3) _ n(1), of rnd d] s by blast
  have "keys_nonneg corpus (dict_of (map fst corpus) (\<lambda>k. c k / real_of_int n))"
    using c(2) n(2) by (intro keys_nonneg_dict_of) simp
  then show "\<exists>output. sample_pagerank corpus d n rnd = Inr output \<and> keys_nonneg corpus output"
    using c(1) by simp
next
  have dk: "distinct (map fst corpus)" using assms(1) by (simp add: wf_corpus_def)
  assume "iterate_pagerank corpus d = Some res"
  then obtain j where "res = Inr (dict_of (map fst corpus)
         ((rank_update corpus d ^^ Suc j) (\<lambda>k. 1 / real (length corpus))))"
    using iterate_pagerank_result [OF dk] by blast
  moreover have "keys_nonneg corpus (dict_of (map fst corpus)
         ((rank_update corpus d ^^ Suc j) (\<lambda>k. 1 / real (length corpus))))"
    by (intro keys_nonneg_dict_of funpow_rank_update_nonneg assms(4,5)) simp
  ultimately show "\<exists>output. res = Inr output \<and> keys_nonneg corpus output"
    by simp
qed

theorem outputs_keep_keys_witness:
  "wf_corpus module_corpus \<and> links_closed module_corpus \<and> module_corpus \<noteq> []
   \<and> (0::real) \<le> 85 / 100 \<and> (85 / 100 :: real) \<le> 1
   \<and> ''1.html'' \<in> set (map fst module_corpus) \<and> uniform_source halves \<and> (1::int) \<le> 3
   \<and> iterate_pagerank module_corpus (85 / 100)
       = Some (Inr [(''1.html'', 1 / 20), (''2.html'', 19 / 40), (''3.html'', 19 / 40)])
   \<and> (\<exists>output. transition_model module_corpus ''1.html'' (85 / 100) = Inr output
         \<and> keys_nonneg module_corpus output)
   \<and> (\<exists>output. sample_pagerank module_corpus (85 / 100) 3 halves = Inr output
         \<and> keys_nonneg module_corpus output)
   \<and> keys_nonneg module_corpus [(''1.html'', 1 / 20), (''2.html'', 19 / 40), (''3.html'', 19 / 40)]"
proof -
  have h: "wf_corpus module_corpus" "links_closed module_corpus" "module_corpus \<noteq> []"
    "(0::real) \<le> 85 / 100" "(85 / 100 :: real) \<le> 1"
    by (simp_all add: module_corpus_def wf_corpus_def links_closed_def)
  have g: "''1.html'' \<in> set (map fst module_corpus)" "uniform_source halves" "(1::int) \<le> 3"
    by (simp_all add: module_corpus_def uniform_source_def halves_def)
  have init: "initial_rank module_corpus 3
      = Inr [(''1.html'', 1 / 3), (''2.html'', 1 / 3), (''3.html'', 1 / 3)]"
    by (simp add: initial_rank_def module_corpus_def truediv_def setitem_def)
  have pass: "new_rank module_corpus (17 / 20) 3 [(''1.html'', a), (''2.html'', b), (''3.html'', c)]
      = Inr [(''1.html'', 1 / 20), (''2.html'', 1 / 20 + 17 / 20 * (a / 2 + c)),
             (''3.html'', 1 / 20 + 17 / 20 * (a / 2 + b))]" for a b c
    by (simp add: new_rank_def summation_of_def module_corpus_def getitem_def setitem_def
        truediv_def)
  have diff: "differences [(''1.html'', a), (''2.html'', b), (''3.html'', c)]
        [(''1.html'', a'), (''2.html'', b'), (''3.html'', c')]
      = Inr [\<bar>a - a'\<bar>, \<bar>b - b'\<bar>, \<bar>c - c'\<bar>]" for a b c a' b' c'
    by (simp add: differences_def getitem_def)
  have second: "iterate_loop module_corpus (17 / 20) 3
        [(''1.html'', 1 / 20), (''2.html'', 19 / 40), (''3.html'', 19 / 40)]
      = Some (Inr [(''1.html'', 1 / 20), (''2.html'', 19 / 40), (''3.html'', 19 / 40)])"
    by (subst iterate_loop.simps) (simp add: pass diff)
  have first: "iterate_loop module_corpus (17 / 20) 3
        [(''1.html'', 1 / 3), (''2.html'', 1 / 3), (''3.html'', 1 / 3)]
      = Some (Inr [(''1.html'', 1 / 20), (''2.html'', 19 / 40), (''3.html'', 19 / 40)])"
    by (subst iterate_loop.simps) (simp add: pass diff second)
  have len: "length module_corpus = 3" by (simp add: module_corpus_def)
  have run: "iterate_pagerank module_corpus (85 / 100)
       = Some (Inr [(''1.html'', 1 / 20), (''2.html'', 19 / 40), (''3.html'', 19 / 40)])"
    using first by (simp add: iterate_pagerank_def len init)
  show ?thesis
    using h g run
      outputs_keep_keys [OF h, of "''1.html''" halves 3
        "Inr [(''1.html'', 1 / 20), (''2.html'', 19 / 40), (''3.html'', 19 / 40)]"]
    by auto
qed

end
